theory Spec2Isabelle
  imports Main "HOL-Library.Word" "HOL-Library.Sublist"
begin

section \<open>Python values used by dedup-archive.py\<close>

text \<open>
  A \<^verbatim>\<open>bytes\<close> object is a list of 8-bit words, a \<^verbatim>\<open>str\<close> is the list of its
  code points, an \<^verbatim>\<open>int\<close> is unbounded. An uncaught exception ends the process
  with status 1, so every exception the script can raise is a value.
\<close>

type_synonym byte = "8 word"
type_synonym bytes = "byte list"
type_synonym pystr = "nat list"

datatype py_exc =
    AssertionError
  | UnicodeDecodeError
  | ValueError
  | IndexError
  | FileNotFoundError
  | IsADirectoryError
  | OSError
  | CalledProcessError int
  | SystemExit nat

text \<open>A string literal of the source, as code points.\<close>

definition lit :: "string \<Rightarrow> pystr" where
  "lit s = map of_char s"

text \<open>\<^verbatim>\<open>b.decode("ascii")\<close>: strict, any byte above 0x7f raises.\<close>

definition decode_ascii :: "bytes \<Rightarrow> py_exc + pystr" where
  "decode_ascii bs =
     (if list_all (\<lambda>b. b < 128) bs then Inr (map unat bs) else Inl UnicodeDecodeError)"

text \<open>\<^verbatim>\<open>b.decode("ascii", errors="replace")\<close>: a byte above 0x7f becomes U+FFFD.\<close>

definition decode_ascii_replace :: "bytes \<Rightarrow> pystr" where
  "decode_ascii_replace bs = map (\<lambda>b. if b < 128 then unat b else 65533) bs"

text \<open>
  \<^verbatim>\<open>str.isspace\<close> on the code points that survive an ASCII decode:
  TAB, LF, VT, FF, CR, the separators 0x1c-0x1f and the space.
\<close>

definition isspace :: "nat \<Rightarrow> bool" where
  "isspace c = ((9 \<le> c \<and> c \<le> 13) \<or> (28 \<le> c \<and> c \<le> 32))"

definition rstrip_where :: "('a \<Rightarrow> bool) \<Rightarrow> 'a list \<Rightarrow> 'a list" where
  "rstrip_where P xs = rev (dropWhile P (rev xs))"

text \<open>\<^verbatim>\<open>s.strip()\<close>, \<^verbatim>\<open>s.rstrip("/")\<close> and \<^verbatim>\<open>b.rstrip(b"\x00")\<close>.\<close>

definition strip :: "pystr \<Rightarrow> pystr" where
  "strip s = rstrip_where isspace (dropWhile isspace s)"

definition rstrip_slash :: "pystr \<Rightarrow> pystr" where
  "rstrip_slash s = rstrip_where (\<lambda>c. c = 47) s"

definition rstrip_nul :: "bytes \<Rightarrow> bytes" where
  "rstrip_nul bs = rstrip_where (\<lambda>b. b = 0) bs"

definition startswith :: "'a list \<Rightarrow> 'a list \<Rightarrow> bool" where
  "startswith s p = (take (length p) s = p)"

text \<open>
  Slices \<^verbatim>\<open>xs[:n]\<close> and \<^verbatim>\<open>xs[n:]\<close> for an int \<open>n\<close>: a negative bound counts from
  the end and is clamped at the start of the sequence.
\<close>

definition slice_to :: "'a list \<Rightarrow> int \<Rightarrow> 'a list" where
  "slice_to xs n = (if 0 \<le> n then take (nat n) xs else take (length xs - nat (- n)) xs)"

definition slice_from :: "'a list \<Rightarrow> int \<Rightarrow> 'a list" where
  "slice_from xs n = (if 0 \<le> n then drop (nat n) xs else drop (length xs - nat (- n)) xs)"

text \<open>
  \<^verbatim>\<open>int(s)\<close> in base 10: surrounding whitespace, an optional sign, then decimal
  digits, where single underscores may stand between digits. Anything else raises
  ValueError.
\<close>

definition isdigit :: "nat \<Rightarrow> bool" where
  "isdigit c = (48 \<le> c \<and> c \<le> 57)"

fun digits_value :: "nat \<Rightarrow> pystr \<Rightarrow> nat option" where
  "digits_value acc [] = Some acc"
| "digits_value acc [c] = (if isdigit c then Some (10 * acc + (c - 48)) else None)"
| "digits_value acc (c # d # cs) =
     (if isdigit c then
        (if d = 95 then
           (case cs of [] \<Rightarrow> None
            | e # _ \<Rightarrow> if isdigit e then digits_value (10 * acc + (c - 48)) cs else None)
         else digits_value (10 * acc + (c - 48)) (d # cs))
      else None)"

definition py_int :: "pystr \<Rightarrow> py_exc + int" where
  "py_int s =
     (let t = strip s;
          neg = (case t of [] \<Rightarrow> False | c # _ \<Rightarrow> c = 45);
          body = (case t of [] \<Rightarrow> [] | c # cs \<Rightarrow> if c = 43 \<or> c = 45 then cs else t)
      in if body = [] then Inl ValueError
         else (case digits_value 0 body of
                 None \<Rightarrow> Inl ValueError
               | Some v \<Rightarrow> Inr (if neg then - int v else int v)))"

text \<open>\<^verbatim>\<open>str(n)\<close> and the format \<^verbatim>\<open>{i:05d}\<close> for a non-negative int.\<close>

fun str_nat :: "nat \<Rightarrow> pystr" where
  "str_nat n = (if n < 10 then [48 + n] else str_nat (n div 10) @ [48 + n mod 10])"

declare str_nat.simps [simp del]

definition format_05d :: "nat \<Rightarrow> pystr" where
  "format_05d i = replicate (5 - length (str_nat i)) 48 @ str_nat i"

section \<open>The reader: parse_ar\<close>

text \<open>
  The file object is the byte list \<open>bs\<close> of the whole file and the position \<open>pos\<close>
  (\<^verbatim>\<open>f.tell()\<close>). \<^verbatim>\<open>f.read(n)\<close> with a count \<open>n\<close> that is not negative, as in
  \<^verbatim>\<open>f.read(8)\<close>, \<^verbatim>\<open>f.read(1)\<close> and \<^verbatim>\<open>f.read(60)\<close>, returns the bytes from \<open>pos\<close>,
  at most \<open>n\<close> of them, and advances by what it returned.
\<close>

definition f_read :: "bytes \<Rightarrow> nat \<Rightarrow> nat \<Rightarrow> bytes" where
  "f_read bs pos n = take n (drop pos bs)"

text \<open>
  \<^verbatim>\<open>f.read(size)\<close> of line 32, where \<open>size\<close> is the int parsed from the header: the
  size -1 reads to the end of the file, a size below -1 raises ValueError
  (\<^verbatim>\<open>read length must be non-negative or -1\<close>).
\<close>

definition f_read_size :: "bytes \<Rightarrow> nat \<Rightarrow> int \<Rightarrow> py_exc + bytes" where
  "f_read_size bs pos n =
     (if n < - 1 then Inl ValueError
      else if n = - 1 then Inr (drop pos bs)
      else Inr (f_read bs pos (nat n)))"

definition ar_magic :: bytes where
  "ar_magic = [0x21, 0x3C, 0x61, 0x72, 0x63, 0x68, 0x3E, 0x0A]"

text \<open>Lines 34-41: the member name and the object data, from the name field and the payload.\<close>

definition resolve_name :: "pystr \<Rightarrow> bytes \<Rightarrow> py_exc + (pystr \<times> bytes)" where
  "resolve_name name_field data =
     (if startswith name_field (lit ''#1/'') then
        (case py_int (drop 3 name_field) of
           Inl e \<Rightarrow> Inl e
         | Inr name_len \<Rightarrow>
             Inr (decode_ascii_replace (rstrip_nul (slice_to data name_len)),
                  slice_from data name_len))
      else Inr (rstrip_slash name_field, data))"

text \<open>
  One turn of the \<^verbatim>\<open>while True\<close> loop, lines 21-41: the alignment byte, the
  header, the payload and the name. The result is the end of the archive, an
  exception, or the record with the position after its payload.
\<close>

datatype turn = EndOfArchive | Raised py_exc | Record pystr bytes nat

definition align :: "bytes \<Rightarrow> nat \<Rightarrow> nat" where
  "align bs pos = (if pos mod 2 = 1 then pos + length (f_read bs pos 1) else pos)"

definition read_member :: "bytes \<Rightarrow> nat \<Rightarrow> turn" where
  "read_member bs pos0 =
     (let pos = align bs pos0;
          header = f_read bs pos 60
      in if length header < 60 then EndOfArchive
         else
           (case decode_ascii (take 16 header) of
              Inl e \<Rightarrow> Raised e
            | Inr nf \<Rightarrow>
               (case decode_ascii (take 10 (drop 48 header)) of
                  Inl e \<Rightarrow> Raised e
                | Inr sf \<Rightarrow>
                   (case py_int (strip sf) of
                      Inl e \<Rightarrow> Raised e
                    | Inr sz \<Rightarrow>
                       (case f_read_size bs (pos + 60) sz of
                          Inl e \<Rightarrow> Raised e
                        | Inr data \<Rightarrow>
                           (case resolve_name (strip nf) data of
                              Inl e \<Rightarrow> Raised e
                            | Inr (member_name, object_data) \<Rightarrow>
                                Record member_name object_data (pos + 60 + length data)))))))"

text \<open>Line 44: the symbol table and string table entries the reader skips.\<close>

definition is_special :: "pystr \<Rightarrow> bool" where
  "is_special member_name =
     (startswith member_name (lit ''__.SYMDEF'')
      \<or> member_name \<in> {lit ''/'', lit ''//'', lit ''''})"

lemma read_member_advances:
  assumes "read_member bs pos = Record n d pos'"
  shows "pos < pos'" and "pos' \<le> length bs"
proof -
  let ?p = "align bs pos"
  from assms have len: "length (f_read bs ?p 60) = 60"
    by (auto simp: read_member_def Let_def f_read_def split: if_splits)
  from assms obtain data where pos': "pos' = ?p + 60 + length data"
      and data: "\<exists>sz. f_read_size bs (?p + 60) sz = Inr data"
    by (auto simp: read_member_def Let_def split: if_splits sum.splits prod.splits)
  have "pos \<le> ?p" by (simp add: align_def)
  with pos' show "pos < pos'" by simp
  from len have "?p + 60 \<le> length bs" by (simp add: f_read_def)
  moreover from data have "length data \<le> length bs - (?p + 60)"
    by (auto simp: f_read_size_def f_read_def split: if_splits)
  ultimately show "pos' \<le> length bs" using pos' by simp
qed

text \<open>
  The generator, consumed whole by \<^verbatim>\<open>list(parse_ar(path))\<close>: the records in file
  order, or the exception that ends the run.
\<close>

function parse_members :: "bytes \<Rightarrow> nat \<Rightarrow> py_exc + (pystr \<times> bytes) list" where
  "parse_members bs pos =
     (case read_member bs pos of
        EndOfArchive \<Rightarrow> Inr []
      | Raised e \<Rightarrow> Inl e
      | Record member_name object_data pos' \<Rightarrow>
          if is_special member_name then parse_members bs pos'
          else (case parse_members bs pos' of
                  Inl e \<Rightarrow> Inl e
                | Inr ms \<Rightarrow> Inr ((member_name, object_data) # ms)))"
  by pat_completeness auto
termination
proof (relation "measure (\<lambda>(bs, pos). length bs - pos)")
  show "wf (measure (\<lambda>(bs, pos). length bs - pos))" by simp
next
  fix bs pos n d pos'
  assume "read_member bs pos = Record n d pos'"
  then have "pos < pos'" "pos' \<le> length bs" by (rule read_member_advances)+
  then show "((bs, pos'), (bs, pos)) \<in> measure (\<lambda>(bs, pos). length bs - pos)" by simp
next
  fix bs pos n d pos'
  assume "read_member bs pos = Record n d pos'"
  then have "pos < pos'" "pos' \<le> length bs" by (rule read_member_advances)+
  then show "((bs, pos'), (bs, pos)) \<in> measure (\<lambda>(bs, pos). length bs - pos)" by simp
qed

declare parse_members.simps [simp del]

text \<open>Lines 16-18 on the contents of the file: the magic, then the loop from position 8.\<close>

definition parse_bytes :: "bytes \<Rightarrow> py_exc + (pystr \<times> bytes) list" where
  "parse_bytes bs =
     (let magic = f_read bs 0 8
      in if magic = ar_magic then parse_members bs (length magic) else Inl AssertionError)"

text \<open>
  \<^verbatim>\<open>open(path, "rb")\<close> on a file system that maps the paths of regular files to
  their contents: a missing file raises.
\<close>

type_synonym filesystem = "pystr \<rightharpoonup> bytes"

definition parse_ar :: "filesystem \<Rightarrow> pystr \<Rightarrow> py_exc + (pystr \<times> bytes) list" where
  "parse_ar fs path =
     (case fs path of None \<Rightarrow> Inl FileNotFoundError | Some bs \<Rightarrow> parse_bytes bs)"

section \<open>The dedup policy (main, lines 60-83)\<close>

definition duplicate_candidates :: "pystr set" where
  "duplicate_candidates =
     {lit ''ggml.c.o'', lit ''ggml-alloc.c.o'', lit ''ggml-backend.c.o'', lit ''ggml-quants.c.o''}"

text \<open>\<^verbatim>\<open>Counter(names)[n]\<close> is the number of occurrences of \<open>n\<close>, 0 for a name not there.\<close>

definition actual_dups :: "pystr list \<Rightarrow> pystr set" where
  "actual_dups names = {n \<in> duplicate_candidates. 1 < count_list names n}"

text \<open>
  The body of the loop of lines 78-83 on the dict \<open>seen\<close> and the set
  \<open>skip_indices\<close>, and the loop over \<^verbatim>\<open>enumerate(names)\<close>.
\<close>

definition mark :: "pystr set \<Rightarrow> nat \<times> pystr \<Rightarrow> (pystr \<rightharpoonup> nat) \<times> nat set \<Rightarrow> (pystr \<rightharpoonup> nat) \<times> nat set" where
  "mark dups = (\<lambda>(i, name) (seen, skip_indices).
     if name \<in> dups then
       (case seen name of
          None \<Rightarrow> (seen(name \<mapsto> i), skip_indices)
        | Some first \<Rightarrow> (seen, insert first skip_indices))
     else (seen, skip_indices))"

definition skip_indices_of :: "pystr list \<Rightarrow> nat set" where
  "skip_indices_of names =
     snd (fold (mark (actual_dups names)) (enumerate 0 names) (Map.empty, {}))"

section \<open>The writer and the run (main)\<close>

text \<open>
  The world of a run is the file system, the lines printed on standard output and
  the external commands started, in order. What the environment decides is a
  parameter: the results of \<^verbatim>\<open>cp\<close> and \<^verbatim>\<open>ar\<close> (exit status and the file system
  they leave; both are taken to be installed), the name of the fresh temporary
  directory, and the exception, if any, with which the operating system refuses
  to create a staged file (a name that is too long, a full disk). Printing,
  creating the temporary directory, removing the existing output file and
  removing the temporary directory are taken to succeed; the file system holds
  regular files only.
\<close>

datatype command = Cp pystr pystr | Ar pystr "pystr list"

record world =
  files :: filesystem
  stdout :: "pystr list"
  spawned :: "command list"

record env =
  cp :: "pystr \<Rightarrow> pystr \<Rightarrow> filesystem \<Rightarrow> int \<times> filesystem"
  ar :: "pystr \<Rightarrow> pystr list \<Rightarrow> filesystem \<Rightarrow> int \<times> filesystem"
  tmpdir :: pystr
  create_error :: "pystr \<Rightarrow> py_exc option"

definition py_print :: "pystr \<Rightarrow> world \<Rightarrow> world" where
  "py_print line w = w\<lparr>stdout := stdout w @ [line]\<rparr>"

definition path_join :: "pystr \<Rightarrow> pystr \<Rightarrow> pystr" where
  "path_join a b =
     (if startswith b (lit ''/'') then b
      else if a = [] \<or> last a = 47 then a @ b
      else a @ lit ''/'' @ b)"

text \<open>Leaving the \<^verbatim>\<open>with tempfile.TemporaryDirectory()\<close> block removes what is under it.\<close>

definition cleanup :: "pystr \<Rightarrow> filesystem \<Rightarrow> filesystem" where
  "cleanup d fs = (\<lambda>p. if startswith p (path_join d []) then None else fs p)"

text \<open>
  Lines 91-100: the loop that writes each member that is not skipped to its own
  file and collects the paths. It returns the exception of a failed write, if any,
  the list \<open>extracted\<close> and the file system. \<^verbatim>\<open>open\<close> raises ValueError on a
  path with a NUL in it before the system is asked. A name with a \<^verbatim>\<open>/\<close> in it
  points below the temporary directory, which is fresh and has no directory in
  it: FileNotFoundError, or IsADirectoryError when the name has its slashes at
  the end only (as Linux answers).
\<close>

fun stage :: "env \<Rightarrow> nat set \<Rightarrow> (nat \<times> pystr \<times> bytes) list \<Rightarrow> filesystem \<Rightarrow> pystr list
    \<Rightarrow> py_exc option \<times> pystr list \<times> filesystem" where
  "stage e skip_indices [] fs extracted = (None, extracted, fs)"
| "stage e skip_indices ((i, name, data) # rest) fs extracted =
     (if i \<in> skip_indices then stage e skip_indices rest fs extracted
      else
        (let out_name = format_05d i @ lit ''_'' @ name;
             out_path = path_join (tmpdir e) out_name
         in if 0 \<in> set out_path then (Some ValueError, extracted, fs)
            else if 47 \<in> set out_name then
              (Some (if 47 \<in> set (rstrip_slash out_name) then FileNotFoundError
                     else IsADirectoryError), extracted, fs)
            else
              (case create_error e out_path of
                 Some ex \<Rightarrow> (Some ex, extracted, fs)
               | None \<Rightarrow>
                   stage e skip_indices rest (fs(out_path \<mapsto> data)) (extracted @ [out_path]))))"

definition usage :: "pystr \<Rightarrow> pystr" where
  "usage prog = lit ''Usage: '' @ prog @ lit '' <input.a> <output.a>''"

text \<open>Lines 70-73: the copy, whose exit status is dropped.\<close>

definition passthrough :: "env \<Rightarrow> pystr \<Rightarrow> pystr \<Rightarrow> world \<Rightarrow> py_exc option \<times> world" where
  "passthrough e input_path output_path w =
     (let w1 = py_print (lit ''No duplicate ggml objects found, copying as-is'') w;
          (rc, fs') = cp e input_path output_path (files w1)
      in (None, w1\<lparr>files := fs', spawned := spawned w1 @ [Cp input_path output_path]\<rparr>))"

text \<open>Lines 75-109: the drop set, the staging, the removal of the old output and \<^verbatim>\<open>ar rcs\<close>.\<close>

definition rebuild :: "env \<Rightarrow> pystr \<Rightarrow> (pystr \<times> bytes) list \<Rightarrow> world \<Rightarrow> py_exc option \<times> world" where
  "rebuild e output_path members w =
     (let names = map fst members;
          skip_indices = skip_indices_of names;
          w1 = py_print (lit ''Removing '' @ str_nat (card skip_indices) @ lit '' whisper ggml objects:'') w;
          w2 = fold (\<lambda>idx. py_print (lit ''  ['' @ str_nat idx @ lit ''] '' @ names ! idx))
                 (sorted_list_of_set skip_indices) w1;
          (failed, extracted, fs1) = stage e skip_indices (enumerate 0 members) (files w2) []
      in case failed of
           Some ex \<Rightarrow> (Some ex, w2\<lparr>files := cleanup (tmpdir e) fs1\<rparr>)
         | None \<Rightarrow>
            (let w3 = py_print (lit ''Repacking '' @ str_nat (length extracted) @ lit '' objects into ''
                                  @ output_path) w2;
                 fs2 = (if fs1 output_path \<noteq> None then fs1(output_path := None) else fs1);
                 (rc, fs3) = ar e output_path extracted fs2;
                 w4 = w3\<lparr>files := cleanup (tmpdir e) fs3,
                         spawned := spawned w3 @ [Ar output_path extracted]\<rparr>
             in if rc \<noteq> 0 then (Some (CalledProcessError rc), w4)
                else (None, py_print (lit ''Done!'') w4)))"

definition main :: "env \<Rightarrow> pystr list \<Rightarrow> world \<Rightarrow> py_exc option \<times> world" where
  "main e argv w =
     (if length argv \<noteq> 3 then
        (case argv of
           [] \<Rightarrow> (Some IndexError, w)
         | prog # _ \<Rightarrow> (Some (SystemExit 1), py_print (usage prog) w))
      else
        (let input_path = argv ! 1;
             output_path = argv ! 2
         in case parse_ar (files w) input_path of
              Inl ex \<Rightarrow> (Some ex, w)
            | Inr members \<Rightarrow>
                if actual_dups (map fst members) = {}
                then passthrough e input_path output_path w
                else rebuild e output_path members w))"

text \<open>The exit status of the process: 0 on return, the code of \<^verbatim>\<open>sys.exit\<close>, 1 on a traceback.\<close>

definition exit_status :: "py_exc option \<Rightarrow> nat" where
  "exit_status r = (case r of None \<Rightarrow> 0 | Some (SystemExit n) \<Rightarrow> n | Some _ \<Rightarrow> 1)"

section \<open>Notions the properties are stated with\<close>

text \<open>The index of the first occurrence of \<open>x\<close> in \<open>xs\<close> (the length of \<open>xs\<close> when there is none).\<close>

definition first_index :: "'a list \<Rightarrow> 'a \<Rightarrow> nat" where
  "first_index xs x = length (takeWhile (\<lambda>y. y \<noteq> x) xs)"

text \<open>The state of the loop of lines 78-83 after it has run over the names \<open>xs\<close>.\<close>

definition seen_after :: "pystr set \<Rightarrow> pystr list \<Rightarrow> (pystr \<rightharpoonup> nat)" where
  "seen_after dups xs = (\<lambda>n. if n \<in> dups \<and> n \<in> set xs then Some (first_index xs n) else None)"

definition skip_after :: "pystr set \<Rightarrow> pystr list \<Rightarrow> nat set" where
  "skip_after dups xs = {first_index xs n | n. n \<in> dups \<and> 2 \<le> count_list xs n}"

text \<open>
  The members the loop of lines 92-100 does not skip, in the order of the loop:
  the filter \<^verbatim>\<open>if i in skip_indices: continue\<close> over \<^verbatim>\<open>enumerate(members)\<close>.
\<close>

definition surviving :: "nat set \<Rightarrow> 'a list \<Rightarrow> 'a list" where
  "surviving skip_indices ms = map snd (filter (\<lambda>(i, m). i \<notin> skip_indices) (enumerate 0 ms))"



section \<open>Archives the properties are tried on\<close>

text \<open>
  A 60-byte member header as an archiver writes it: the name field, the date, owner,
  group and mode fields (blank here: the reader ignores them), the size field and
  the two closing bytes.
\<close>

definition ar_header :: "string \<Rightarrow> string \<Rightarrow> bytes" where
  "ar_header name_field size_field =
     map of_char (name_field @ replicate (16 - length name_field) (CHR '' '')
                  @ replicate 32 (CHR '' '')
                  @ size_field @ replicate (10 - length size_field) (CHR '' '')
                  @ [CHR 0x60, CHR 0x0A])"

text \<open>A string table entry \<^verbatim>\<open>/\<close> with no payload, then the member \<^verbatim>\<open>a.o\<close> of one byte.\<close>

definition table_then_member :: bytes where
  "table_then_member = ar_magic @ ar_header ''/'' ''0'' @ ar_header ''a.o/'' ''1'' @ [1]"

text \<open>A symbol table \<^verbatim>\<open>__.SYMDEF\<close> with four bytes of payload, then the member \<^verbatim>\<open>a.o\<close>.\<close>

definition symdef_then_member :: bytes where
  "symdef_then_member =
     ar_magic @ ar_header ''__.SYMDEF'' ''4'' @ [0, 0, 0, 0] @ ar_header ''a.o/'' ''1'' @ [1]"

text \<open>A header whose name field starts with the byte 0xff.\<close>

definition bad_name_field :: bytes where
  "bad_name_field = ar_magic @ 0xFF # replicate 59 0x20"

text \<open>
  A member with the extended name \<^verbatim>\<open>#1/4\<close>: the four name bytes \<^verbatim>\<open>a\<close>, 0xff,
  \<^verbatim>\<open>o\<close>, NUL, then two bytes of content.
\<close>

definition extended_bad_name :: bytes where
  "extended_bad_name = ar_magic @ ar_header ''#1/4'' ''6'' @ [0x61, 0xFF, 0x6F, 0, 7, 7]"

text \<open>Two members named \<^verbatim>\<open>ggml.c.o\<close> of one byte each, with the pad byte between them.\<close>

definition two_copies :: bytes where
  "two_copies = ar_magic @ ar_header ''ggml.c.o/'' ''1'' @ [1, 0x0A]
                 @ ar_header ''ggml.c.o/'' ''1'' @ [2]"




text \<open>
  The copy utility on regular files: it fails on a missing source and on a source
  that is its own destination, and otherwise writes the source's bytes to the
  destination.
\<close>

definition posix_cp :: "pystr \<Rightarrow> pystr \<Rightarrow> filesystem \<Rightarrow> int \<times> filesystem" where
  "posix_cp src dst fs =
     (case fs src of
        None \<Rightarrow> (1, fs)
      | Some content \<Rightarrow> if src = dst then (1, fs) else (0, fs(dst \<mapsto> content)))"

text \<open>
  Two environments, with \<^verbatim>\<open>/tmp/d\<close> as the temporary directory: one in which both
  external commands fail and change nothing, one in which the copy works and the
  archiver fails.
\<close>

definition env_tools_fail :: env where
  "env_tools_fail =
     \<lparr>cp = (\<lambda>src dst fs. (1, fs)), ar = (\<lambda>out inputs fs. (1, fs)),
      tmpdir = lit ''/tmp/d'', create_error = (\<lambda>p. None)\<rparr>"

definition env_cp_works :: env where
  "env_cp_works =
     \<lparr>cp = posix_cp, ar = (\<lambda>out inputs fs. (1, fs)),
      tmpdir = lit ''/tmp/d'', create_error = (\<lambda>p. None)\<rparr>"


text \<open>Worlds before a run: the archive at \<^verbatim>\<open>in.a\<close>, with or without an older \<^verbatim>\<open>out.a\<close>.\<close>

definition world_with :: "bytes \<Rightarrow> world" where
  "world_with archive = \<lparr>files = [lit ''in.a'' \<mapsto> archive], stdout = [], spawned = []\<rparr>"

definition world_with_output :: "bytes \<Rightarrow> bytes \<Rightarrow> world" where
  "world_with_output archive old =
     \<lparr>files = [lit ''in.a'' \<mapsto> archive, lit ''out.a'' \<mapsto> old], stdout = [], spawned = []\<rparr>"

section \<open>The surviving members\<close>

lemma surviving_Nil: "surviving S [] = []"
  by (simp add: surviving_def)

lemma surviving_snoc:
  "surviving S (ms @ [m]) = surviving S ms @ (if length ms \<in> S then [] else [m])"
  by (simp add: surviving_def enumerate_append_eq)

lemma surviving_indices:
  "surviving S ms = map ((!) ms) (filter (\<lambda>i. i \<notin> S) [0..<length ms])"
proof (induction ms rule: rev_induct)
  case Nil
  show ?case by (simp add: surviving_Nil)
next
  case (snoc m ms)
  have "map ((!) (ms @ [m])) (filter (\<lambda>i. i \<notin> S) [0..<length ms])
      = map ((!) ms) (filter (\<lambda>i. i \<notin> S) [0..<length ms])"
    by (rule map_cong) (auto simp: nth_append)
  with snoc show ?case by (simp add: surviving_snoc)
qed

lemma length_surviving:
  "length (surviving S ms) + card {i \<in> S. i < length ms} = length ms"
proof (induction ms rule: rev_induct)
  case Nil
  show ?case by (simp add: surviving_Nil)
next
  case (snoc m ms)
  let ?A = "{i \<in> S. i < length ms}"
  have fin: "finite ?A" by simp
  have notin: "length ms \<notin> ?A" by simp
  show ?case
  proof (cases "length ms \<in> S")
    case True
    then have "{i \<in> S. i < length (ms @ [m])} = insert (length ms) ?A"
      by (auto simp: less_Suc_eq)
    then have "card {i \<in> S. i < length (ms @ [m])} = Suc (card ?A)"
      using card_insert_disjoint [OF fin notin] by presburger
    with True snoc show ?thesis by (simp add: surviving_snoc)
  next
    case False
    then have "{i \<in> S. i < length (ms @ [m])} = ?A"
      by (auto simp: less_Suc_eq)
    with False snoc show ?thesis by (simp add: surviving_snoc)
  qed
qed

lemma count_surviving:
  "count_list (surviving S ms) x + card {i \<in> S. i < length ms \<and> ms ! i = x} = count_list ms x"
proof (induction ms rule: rev_induct)
  case Nil
  show ?case by (simp add: surviving_Nil)
next
  case (snoc m ms)
  let ?A = "{i \<in> S. i < length ms \<and> ms ! i = x}"
  let ?B = "{i \<in> S. i < length (ms @ [m]) \<and> (ms @ [m]) ! i = x}"
  have fin: "finite ?A" by simp
  have notin: "length ms \<notin> ?A" by simp
  show ?case
  proof (cases "length ms \<in> S \<and> m = x")
    case True
    then have "?B = insert (length ms) ?A"
      by (auto simp: less_Suc_eq nth_append)
    then have "card ?B = Suc (card ?A)"
      using card_insert_disjoint [OF fin notin] by presburger
    with True snoc show ?thesis by (simp add: surviving_snoc)
  next
    case False
    then have "?B = ?A"
      by (auto simp: less_Suc_eq nth_append)
    then have "card ?B = card ?A" by (rule arg_cong)
    with False snoc show ?thesis by (auto simp: surviving_snoc)
  qed
qed

section \<open>The drop set\<close>

lemma first_index_append_in: "x \<in> set xs \<Longrightarrow> first_index (xs @ ys) x = first_index xs x"
  by (simp add: first_index_def takeWhile_append1)

lemma first_index_append_notin: "x \<notin> set xs \<Longrightarrow> first_index (xs @ [x]) x = length xs"
  by (induction xs) (auto simp: first_index_def)

lemma count_list_pos_iff: "0 < count_list xs x \<longleftrightarrow> x \<in> set xs"
  by (induction xs) auto

lemma seen_after_snoc:
  "seen_after dups (xs @ [x]) =
     (if x \<in> dups \<and> x \<notin> set xs then (seen_after dups xs)(x \<mapsto> length xs) else seen_after dups xs)"
  by (auto simp: seen_after_def fun_eq_iff first_index_append_in first_index_append_notin)

lemma skip_after_snoc:
  "skip_after dups (xs @ [x]) =
     (if x \<in> dups \<and> x \<in> set xs then insert (first_index xs x) (skip_after dups xs)
      else skip_after dups xs)"
proof -
  have cnt: "2 \<le> count_list (xs @ [x]) n \<longleftrightarrow> 2 \<le> count_list xs n \<or> (n = x \<and> x \<in> set xs)" for n
    using count_list_pos_iff [of xs x] by auto
  have fi: "first_index (xs @ [x]) n = first_index xs n" if "2 \<le> count_list (xs @ [x]) n" for n
  proof -
    from that have "0 < count_list xs n" by (auto split: if_splits)
    then have "n \<in> set xs" by (simp add: count_list_pos_iff)
    then show ?thesis by (rule first_index_append_in)
  qed
  show ?thesis
  proof (intro set_eqI iffI)
    fix i assume "i \<in> skip_after dups (xs @ [x])"
    then obtain n where n: "i = first_index (xs @ [x]) n" "n \<in> dups" "2 \<le> count_list (xs @ [x]) n"
      unfolding skip_after_def by blast
    from n(1) fi [OF n(3)] have i: "i = first_index xs n" by simp
    from n(3) cnt [of n] have "2 \<le> count_list xs n \<or> (n = x \<and> x \<in> set xs)" by blast
    then show "i \<in> (if x \<in> dups \<and> x \<in> set xs then insert (first_index xs x) (skip_after dups xs)
      else skip_after dups xs)"
    proof
      assume "2 \<le> count_list xs n"
      with n(2) i have "i \<in> skip_after dups xs" unfolding skip_after_def by blast
      then show ?thesis by simp
    next
      assume "n = x \<and> x \<in> set xs"
      with n(2) i show ?thesis by simp
    qed
  next
    fix i assume a: "i \<in> (if x \<in> dups \<and> x \<in> set xs then insert (first_index xs x) (skip_after dups xs)
      else skip_after dups xs)"
    have old: "i \<in> skip_after dups (xs @ [x])" if "i \<in> skip_after dups xs"
    proof -
      from that obtain n where n: "i = first_index xs n" "n \<in> dups" "2 \<le> count_list xs n"
        unfolding skip_after_def by blast
      from n(3) cnt [of n] have c: "2 \<le> count_list (xs @ [x]) n" by blast
      with fi [of n] n(1) have "i = first_index (xs @ [x]) n" by simp
      with n(2) c show ?thesis unfolding skip_after_def by blast
    qed
    show "i \<in> skip_after dups (xs @ [x])"
    proof (cases "x \<in> dups \<and> x \<in> set xs")
      case False
      with a old show ?thesis by simp
    next
      case True
      with cnt [of x] have c: "2 \<le> count_list (xs @ [x]) x" by blast
      with fi [of x] have "first_index xs x = first_index (xs @ [x]) x" by simp
      with True c have "\<exists>n. first_index xs x = first_index (xs @ [x]) n \<and> n \<in> dups
          \<and> 2 \<le> count_list (xs @ [x]) n" by blast
      then have "first_index xs x \<in> skip_after dups (xs @ [x])"
        unfolding skip_after_def by simp
      with a old True show ?thesis by auto
    qed
  qed
qed

lemma fold_mark_prefix:
  "fold (mark dups) (enumerate 0 xs) (Map.empty, {}) = (seen_after dups xs, skip_after dups xs)"
proof (induction xs rule: rev_induct)
  case Nil
  show ?case by (simp add: seen_after_def skip_after_def)
next
  case (snoc x xs)
  have "fold (mark dups) (enumerate 0 (xs @ [x])) (Map.empty, {})
      = mark dups (length xs, x) (seen_after dups xs, skip_after dups xs)"
    by (simp add: enumerate_append_eq snoc.IH)
  also have "\<dots> = (seen_after dups (xs @ [x]), skip_after dups (xs @ [x]))"
  proof (cases "x \<in> dups")
    case False
    then show ?thesis by (simp add: mark_def seen_after_snoc skip_after_snoc)
  next
    case True
    show ?thesis
    proof (cases "x \<in> set xs")
      case False
      with True have "seen_after dups xs x = None" by (simp add: seen_after_def)
      with True False show ?thesis by (simp add: mark_def seen_after_snoc skip_after_snoc)
    next
      case in_xs: True
      with True have "seen_after dups xs x = Some (first_index xs x)" by (simp add: seen_after_def)
      with True in_xs show ?thesis by (simp add: mark_def seen_after_snoc skip_after_snoc)
    qed
  qed
  finally show ?case .
qed

lemma first_index_less: "n \<in> set xs \<Longrightarrow> first_index xs n < length xs"
  by (induction xs) (auto simp: first_index_def)

lemma nth_first_index: "n \<in> set xs \<Longrightarrow> xs ! first_index xs n = n"
  by (induction xs) (auto simp: first_index_def)

lemma before_first_index: "j < first_index xs n \<Longrightarrow> xs ! j \<noteq> n"
proof -
  assume j: "j < first_index xs n"
  then have "takeWhile (\<lambda>y. y \<noteq> n) xs ! j = xs ! j"
    unfolding first_index_def by (rule takeWhile_nth)
  moreover have "takeWhile (\<lambda>y. y \<noteq> n) xs ! j \<in> set (takeWhile (\<lambda>y. y \<noteq> n) xs)"
    using j unfolding first_index_def by (rule nth_mem)
  ultimately show ?thesis by (auto dest: set_takeWhileD)
qed

lemma first_index_unique:
  assumes "i < length xs" and "\<forall>j<i. xs ! j \<noteq> xs ! i"
  shows "first_index xs (xs ! i) = i"
proof -
  have "xs ! i \<in> set xs" using assms(1) by simp
  then have "xs ! first_index xs (xs ! i) = xs ! i" by (rule nth_first_index)
  with assms(2) have "\<not> first_index xs (xs ! i) < i" by blast
  moreover have "\<not> i < first_index xs (xs ! i)"
    using before_first_index [of i xs "xs ! i"] by blast
  ultimately show ?thesis by simp
qed

lemma skip_indices_of_eq:
  "skip_indices_of names =
     {first_index names n | n. n \<in> duplicate_candidates \<and> 1 < count_list names n}"
proof -
  have "skip_indices_of names = skip_after (actual_dups names) names"
    by (simp add: skip_indices_of_def fold_mark_prefix)
  also have "\<dots> = {first_index names n | n. n \<in> duplicate_candidates \<and> 1 < count_list names n}"
  proof -
    have "n \<in> actual_dups names \<and> 2 \<le> count_list names n
        \<longleftrightarrow> n \<in> duplicate_candidates \<and> 1 < count_list names n" for n
      by (auto simp: actual_dups_def)
    then have "(\<exists>n. i = first_index names n \<and> n \<in> actual_dups names \<and> 2 \<le> count_list names n)
        \<longleftrightarrow> (\<exists>n. i = first_index names n \<and> n \<in> duplicate_candidates \<and> 1 < count_list names n)" for i
      by blast
    then show ?thesis unfolding skip_after_def by (rule Collect_cong)
  qed
  finally show ?thesis .
qed

lemma skip_indices_of_iff:
  "i \<in> skip_indices_of names \<longleftrightarrow>
     i < length names \<and> names ! i \<in> duplicate_candidates \<and> 1 < count_list names (names ! i)
     \<and> (\<forall>j<i. names ! j \<noteq> names ! i)"
  (is "?L \<longleftrightarrow> ?R")
proof
  assume ?L
  then obtain n where n: "i = first_index names n" "n \<in> duplicate_candidates" "1 < count_list names n"
    unfolding skip_indices_of_eq by blast
  from n(3) have mem: "n \<in> set names" using count_list_pos_iff [of names n] by simp
  from mem have eq: "names ! i = n" unfolding n(1) by (rule nth_first_index)
  from mem have less: "i < length names" unfolding n(1) by (rule first_index_less)
  have "names ! j \<noteq> n" if "j < i" for j
    using that unfolding n(1) by (rule before_first_index)
  then have "\<forall>j<i. names ! j \<noteq> names ! i" unfolding eq by blast
  with less n(2,3) show ?R unfolding eq by blast
next
  assume r: ?R
  then have "i < length names" and "\<forall>j<i. names ! j \<noteq> names ! i" by blast+
  then have "first_index names (names ! i) = i" by (rule first_index_unique)
  then have "i = first_index names (names ! i)" by simp
  moreover from r have "names ! i \<in> duplicate_candidates" "1 < count_list names (names ! i)"
    by blast+
  ultimately show ?L unfolding skip_indices_of_eq by blast
qed

lemma dropped_of_dup:
  assumes "n \<in> duplicate_candidates" and "1 < count_list names n"
  shows "{i \<in> skip_indices_of names. i < length names \<and> names ! i = n} = {first_index names n}"
proof -
  from assms(2) have mem: "n \<in> set names" using count_list_pos_iff [of names n] by simp
  have a: "first_index names n \<in> skip_indices_of names"
    unfolding skip_indices_of_eq using assms by blast
  have b: "i = first_index names n" if "i \<in> skip_indices_of names" "names ! i = n" for i
  proof -
    from that(1) have "i < length names" "\<forall>j<i. names ! j \<noteq> names ! i"
      by (simp_all add: skip_indices_of_iff)
    then have "first_index names (names ! i) = i" by (rule first_index_unique)
    with that(2) show ?thesis by simp
  qed
  show ?thesis
  proof (intro set_eqI iffI)
    fix i assume "i \<in> {i \<in> skip_indices_of names. i < length names \<and> names ! i = n}"
    then show "i \<in> {first_index names n}" using b by simp
  next
    fix i assume "i \<in> {first_index names n}"
    then show "i \<in> {i \<in> skip_indices_of names. i < length names \<and> names ! i = n}"
      using a first_index_less [OF mem] nth_first_index [OF mem] by simp
  qed
qed

lemma dropped_of_other:
  assumes "\<not> (n \<in> duplicate_candidates \<and> 1 < count_list names n)"
  shows "{i \<in> skip_indices_of names. i < length names \<and> names ! i = n} = {}"
proof -
  have "i \<notin> skip_indices_of names" if "names ! i = n" for i
    using that assms skip_indices_of_iff [of i names] by blast
  then show ?thesis by blast
qed

lemma count_surviving_names:
  "count_list (surviving (skip_indices_of names) names) n =
     (if n \<in> duplicate_candidates \<and> 1 < count_list names n
      then count_list names n - 1 else count_list names n)"
proof (cases "n \<in> duplicate_candidates \<and> 1 < count_list names n")
  case True
  then have "card {i \<in> skip_indices_of names. i < length names \<and> names ! i = n} = 1"
    by (simp add: dropped_of_dup)
  with count_surviving [of "skip_indices_of names" names n]
  have "count_list (surviving (skip_indices_of names) names) n = count_list names n - 1"
    by linarith
  with True show ?thesis by simp
next
  case False
  then have "{i \<in> skip_indices_of names. i < length names \<and> names ! i = n} = {}"
    by (rule dropped_of_other)
  then have "card {i \<in> skip_indices_of names. i < length names \<and> names ! i = n} = 0"
    by (simp only: card.empty)
  with count_surviving [of "skip_indices_of names" names n]
  have "count_list (surviving (skip_indices_of names) names) n = count_list names n"
    by linarith
  with False show ?thesis by auto
qed

lemma skip_indices_of_bounded:
  "{i \<in> skip_indices_of names. i < length names} = skip_indices_of names"
proof -
  have "i < length names" if "i \<in> skip_indices_of names" for i
    using that by (simp add: skip_indices_of_iff)
  then show ?thesis by blast
qed


section \<open>Claims on the dedup policy\<close>

text \<open>
  C2. The drop set is exactly the set of first occurrences of the candidate names
  that occur more than once: an index is dropped if and only if its name is a
  candidate, the name occurs more than once, and no earlier member has that name.
  Hence among the surviving names a candidate that occurred \<open>k > 1\<close> times occurs
  \<open>k - 1\<close> times, and every other name (a candidate occurring at most once, or a
  name that is no candidate, however often it repeats) occurs as often as before.
\<close>

theorem drop_set_exact:
  "skip_indices_of names =
     {i. i < length names \<and> names ! i \<in> duplicate_candidates
         \<and> 1 < count_list names (names ! i) \<and> (\<forall>j<i. names ! j \<noteq> names ! i)}
   \<and> (\<forall>n. count_list (surviving (skip_indices_of names) names) n =
          (if n \<in> duplicate_candidates \<and> 1 < count_list names n
           then count_list names n - 1 else count_list names n))"
proof (intro conjI allI)
  show "skip_indices_of names =
     {i. i < length names \<and> names ! i \<in> duplicate_candidates
         \<and> 1 < count_list names (names ! i) \<and> (\<forall>j<i. names ! j \<noteq> names ! i)}"
    by (rule set_eqI) (simp only: skip_indices_of_iff mem_Collect_eq)
next
  fix n
  show "count_list (surviving (skip_indices_of names) names) n =
          (if n \<in> duplicate_candidates \<and> 1 < count_list names n
           then count_list names n - 1 else count_list names n)"
    by (rule count_surviving_names)
qed

text \<open>
  On the names of scenario 1, \<^verbatim>\<open>[a.o, ggml.c.o, b.o, ggml.c.o]\<close>: index 1 is
  dropped, index 3 is kept, one copy of \<^verbatim>\<open>ggml.c.o\<close> survives.
\<close>

theorem drop_set_exact_witness:
  "1 \<in> skip_indices_of [lit ''a.o'', lit ''ggml.c.o'', lit ''b.o'', lit ''ggml.c.o'']
   \<and> 3 \<notin> skip_indices_of [lit ''a.o'', lit ''ggml.c.o'', lit ''b.o'', lit ''ggml.c.o'']
   \<and> count_list (surviving (skip_indices_of [lit ''a.o'', lit ''ggml.c.o'', lit ''b.o'', lit ''ggml.c.o''])
        [lit ''a.o'', lit ''ggml.c.o'', lit ''b.o'', lit ''ggml.c.o'']) (lit ''ggml.c.o'') = 1"
proof -
  let ?names = "[lit ''a.o'', lit ''ggml.c.o'', lit ''b.o'', lit ''ggml.c.o'']"
  note inst = drop_set_exact [of ?names]
  have c: "lit ''ggml.c.o'' \<in> duplicate_candidates" by (simp add: duplicate_candidates_def)
  have n: "lit ''a.o'' \<noteq> lit ''ggml.c.o''" "lit ''b.o'' \<noteq> lit ''ggml.c.o''"
    by (simp_all add: lit_def)
  have cnt: "count_list ?names (lit ''ggml.c.o'') = 2" using n by simp
  have "1 \<in> skip_indices_of ?names"
    by (subst conjunct1 [OF inst]) (simp add: c n)
  moreover have "3 \<notin> skip_indices_of ?names"
  proof -
    have "\<not> (\<forall>j<3. ?names ! j \<noteq> ?names ! 3)"
      by (simp add: numeral_3_eq_3 All_less_Suc)
    then show ?thesis by (subst conjunct1 [OF inst]) blast
  qed
  moreover have "count_list (surviving (skip_indices_of ?names) ?names) (lit ''ggml.c.o'') = 1"
    by (subst conjunct2 [OF inst, rule_format]) (simp only: c cnt, simp)
  ultimately show ?thesis by blast
qed

section \<open>Staging and the call of the archiver\<close>



lemma files_py_print [simp]: "files (py_print l w) = files w"
  and spawned_py_print [simp]: "spawned (py_print l w) = spawned w"
  and stdout_py_print [simp]: "stdout (py_print l w) = stdout w @ [l]"
  by (simp_all add: py_print_def)

lemma files_fold_print [simp]: "files (fold (\<lambda>x. py_print (f x)) xs w) = files w"
  by (induction xs arbitrary: w) simp_all

lemma spawned_fold_print [simp]: "spawned (fold (\<lambda>x. py_print (f x)) xs w) = spawned w"
  by (induction xs arbitrary: w) simp_all

lemma stage_extracted:
  "stage e S (enumerate k ms) fs acc = (None, extracted, fs') \<Longrightarrow>
   extracted = acc @ map (\<lambda>(i, m). path_join (tmpdir e) (format_05d i @ lit ''_'' @ fst m))
                        (filter (\<lambda>(i, m). i \<notin> S) (enumerate k ms))"
proof (induction ms arbitrary: k fs acc)
  case Nil
  then show ?case by simp
next
  case (Cons m ms)
  obtain name data where m: "m = (name, data)" by (cases m)
  show ?case
  proof (cases "k \<in> S")
    case True
    with Cons.prems m have "stage e S (enumerate (Suc k) ms) fs acc = (None, extracted, fs')"
      by simp
    from Cons.IH [OF this] True show ?thesis by simp
  next
    case False
    let ?p = "path_join (tmpdir e) (format_05d k @ lit ''_'' @ name)"
    from Cons.prems m False have ok: "0 \<notin> set ?p"
        "47 \<notin> set (format_05d k @ lit ''_'' @ name)" "create_error e ?p = None"
      by (auto simp: Let_def split: if_splits option.splits)
    with Cons.prems m False
    have "stage e S (enumerate (Suc k) ms) (fs(?p \<mapsto> data)) (acc @ [?p]) = (None, extracted, fs')"
      by (simp add: Let_def)
    from Cons.IH [OF this] False m show ?thesis by simp
  qed
qed

lemma enumerate_filter_indices:
  "map (\<lambda>(i, m). g i m) (filter (\<lambda>(i, m). i \<notin> S) (enumerate 0 ms))
     = map (\<lambda>i. g i (ms ! i)) (filter (\<lambda>i. i \<notin> S) [0..<length ms])"
proof (induction ms rule: rev_induct)
  case Nil
  show ?case by simp
next
  case (snoc m ms)
  have "map (\<lambda>i. g i ((ms @ [m]) ! i)) (filter (\<lambda>i. i \<notin> S) [0..<length ms])
      = map (\<lambda>i. g i (ms ! i)) (filter (\<lambda>i. i \<notin> S) [0..<length ms])"
    by (rule map_cong) (auto simp: nth_append)
  with snoc show ?case by (simp add: enumerate_append_eq)
qed

lemma length_filter_not_skipped:
  "length (filter (\<lambda>i. i \<notin> skip_indices_of names) [0..<length names])
     = length names - card (skip_indices_of names)"
proof -
  have "length (surviving (skip_indices_of names) names) + card (skip_indices_of names) = length names"
    using length_surviving [of "skip_indices_of names" names]
    by (simp only: skip_indices_of_bounded)
  then show ?thesis by (simp add: surviving_indices)
qed

lemma rebuild_staged:
  assumes "stage e (skip_indices_of (map fst members)) (enumerate 0 members) (files w) []
             = (None, extracted, fs1)"
  shows "spawned (snd (rebuild e output_path members w)) = spawned w @ [Ar output_path extracted]"
  using assms by (simp add: rebuild_def Let_def split: prod.splits)

section \<open>Properties of the reader\<close>

lemma parse_members_no_special:
  "parse_members bs pos = Inr ms \<Longrightarrow> \<forall>(n, d) \<in> set ms. \<not> is_special n"
proof (induction bs pos arbitrary: ms rule: parse_members.induct)
  case (1 bs pos)
  show ?case
  proof (cases "read_member bs pos")
    case EndOfArchive
    with "1.prems" show ?thesis by (simp add: parse_members.simps [of bs pos])
  next
    case (Raised e)
    with "1.prems" show ?thesis by (simp add: parse_members.simps [of bs pos])
  next
    case (Record n d pos')
    show ?thesis
    proof (cases "is_special n")
      case True
      with Record "1.prems" have "parse_members bs pos' = Inr ms"
        by (simp add: parse_members.simps [of bs pos])
      from "1.IH"(1) [OF Record True this] show ?thesis .
    next
      case False
      with Record "1.prems" obtain ms' where ms': "parse_members bs pos' = Inr ms'"
          and ms: "ms = (n, d) # ms'"
        by (auto simp: parse_members.simps [of bs pos] split: sum.splits)
      from "1.IH"(2) [OF Record False ms'] False ms show ?thesis by simp
    qed
  qed
qed

lemma parse_members_skips_special:
  "read_member bs pos = Record n d pos' \<Longrightarrow> is_special n \<Longrightarrow>
     parse_members bs pos = parse_members bs pos'"
  by (simp add: parse_members.simps [of bs pos])


lemma is_special_iff:
  "is_special n \<longleftrightarrow> startswith n (lit ''__.SYMDEF'') \<or> n = lit ''/'' \<or> n = lit ''//'' \<or> n = []"
  by (auto simp: is_special_def lit_def)

lemma replicate_numeral: "replicate (numeral k) x = x # replicate (pred_numeral k) x"
  by (simp add: numeral_eq_Suc)

lemmas reader_defs = ar_magic_def ar_header_def read_member_def align_def f_read_def f_read_size_def
      decode_ascii_def strip_def rstrip_where_def isspace_def py_int_def isdigit_def resolve_name_def
      startswith_def lit_def rstrip_slash_def rstrip_nul_def decode_ascii_replace_def 
      slice_to_def slice_from_def is_special_def replicate_numeral Let_def

lemma table_entry_at_8: "read_member table_then_member 8 = Record [] [] 68"
  by (simp add: table_then_member_def reader_defs)
lemma table_member_at_68: "read_member table_then_member 68 = Record (lit ''a.o'') [1] 129"
  by (simp add: table_then_member_def reader_defs)
lemma table_end_at_129: "read_member table_then_member 129 = EndOfArchive"
  by (simp add: table_then_member_def reader_defs)
lemma parse_table_then_member: "parse_bytes table_then_member = Inr [(lit ''a.o'', [1])]"
proof -
  have m: "f_read table_then_member 0 8 = ar_magic"
    by (simp add: table_then_member_def f_read_def ar_magic_def)
  have sp: "is_special []" "\<not> is_special (lit ''a.o'')" by (simp_all add: is_special_def lit_def startswith_def)
  have p129: "parse_members table_then_member 129 = Inr []"
    by (subst parse_members.simps) (simp add: table_end_at_129)
  have p68: "parse_members table_then_member 68 = Inr [(lit ''a.o'', [1])]"
    by (subst parse_members.simps) (simp add: table_member_at_68 sp p129)
  have p8: "parse_members table_then_member 8 = Inr [(lit ''a.o'', [1])]"
    by (subst parse_members.simps) (simp add: table_entry_at_8 sp p68)
  have l: "length ar_magic = 8" by (simp add: ar_magic_def)
  show ?thesis by (simp add: parse_bytes_def m l p8)
qed

lemma decode_ascii_Inl: "\<exists>b\<in>set bs. 128 \<le> b \<Longrightarrow> decode_ascii bs = Inl UnicodeDecodeError"
  by (force simp: decode_ascii_def list_all_iff not_less)

lemma read_member_consumes:
  assumes "read_member bs pos = Record n d pos'"
  shows "\<exists>sf sz data.
           decode_ascii (take 10 (drop 48 (f_read bs (align bs pos) 60))) = Inr sf
           \<and> py_int (strip sf) = Inr sz
           \<and> f_read_size bs (align bs pos + 60) sz = Inr data
           \<and> pos' = align bs pos + 60 + length data"
  using assms
  by (auto simp: read_member_def Let_def split: if_splits sum.splits prod.splits)

lemma symdef_at_8:
  "read_member symdef_then_member 8 = Record (lit ''__.SYMDEF'') [0, 0, 0, 0] 72"
  by (simp add: symdef_then_member_def reader_defs)

lemma symdef_member_at_72: "read_member symdef_then_member 72 = Record (lit ''a.o'') [1] 133"
  by (simp add: symdef_then_member_def reader_defs)

lemma symdef_end_at_133: "read_member symdef_then_member 133 = EndOfArchive"
  by (simp add: symdef_then_member_def reader_defs)

lemma parse_symdef_then_member: "parse_bytes symdef_then_member = Inr [(lit ''a.o'', [1])]"
proof -
  have m: "f_read symdef_then_member 0 8 = ar_magic"
    by (simp add: symdef_then_member_def f_read_def ar_magic_def)
  have sp: "is_special (lit ''__.SYMDEF'')" "\<not> is_special (lit ''a.o'')"
    by (simp_all add: is_special_def lit_def startswith_def)
  have p133: "parse_members symdef_then_member 133 = Inr []"
    by (subst parse_members.simps) (simp add: symdef_end_at_133)
  have p72: "parse_members symdef_then_member 72 = Inr [(lit ''a.o'', [1])]"
    by (subst parse_members.simps) (simp add: symdef_member_at_72 sp p133)
  have p8: "parse_members symdef_then_member 8 = Inr [(lit ''a.o'', [1])]"
    by (subst parse_members.simps) (simp add: symdef_at_8 sp p72)
  have l: "length ar_magic = 8" by (simp add: ar_magic_def)
  show ?thesis by (simp add: parse_bytes_def m l p8)
qed

section \<open>Claims on the reader\<close>

text \<open>
  C8. The reader never yields a record whose name begins with \<^verbatim>\<open>__.SYMDEF\<close>, is
  \<^verbatim>\<open>/\<close> or \<^verbatim>\<open>//\<close>, or is empty. A record with such a name is consumed: the
  payload that the size field of its header announces is read, the loop goes on
  at the position after the header and that payload, and the result is that of
  the rest of the stream.
\<close>

theorem special_members_filtered:
  "(parse_ar fs path = Inr ms \<longrightarrow>
      (\<forall>(n, d) \<in> set ms. \<not> startswith n (lit ''__.SYMDEF'')
                            \<and> n \<noteq> lit ''/'' \<and> n \<noteq> lit ''//'' \<and> n \<noteq> []))
   \<and> (read_member bs pos = Record n d pos'
        \<and> (startswith n (lit ''__.SYMDEF'') \<or> n = lit ''/'' \<or> n = lit ''//'' \<or> n = [])
      \<longrightarrow> parse_members bs pos = parse_members bs pos'
          \<and> (\<exists>sf sz data.
                decode_ascii (take 10 (drop 48 (f_read bs (align bs pos) 60))) = Inr sf
                \<and> py_int (strip sf) = Inr sz
                \<and> f_read_size bs (align bs pos + 60) sz = Inr data
                \<and> pos' = align bs pos + 60 + length data))"
proof (intro conjI impI)
  assume p: "parse_ar fs path = Inr ms"
  then obtain bs' where "parse_bytes bs' = Inr ms"
    by (auto simp: parse_ar_def split: option.splits)
  then obtain p' where "parse_members bs' p' = Inr ms"
    by (auto simp: parse_bytes_def Let_def split: if_splits)
  then have "\<forall>(n, d) \<in> set ms. \<not> is_special n" by (rule parse_members_no_special)
  then show "\<forall>(n, d) \<in> set ms. \<not> startswith n (lit ''__.SYMDEF'')
                            \<and> n \<noteq> lit ''/'' \<and> n \<noteq> lit ''//'' \<and> n \<noteq> []"
    unfolding is_special_iff by blast
next
  assume a: "read_member bs pos = Record n d pos'
        \<and> (startswith n (lit ''__.SYMDEF'') \<or> n = lit ''/'' \<or> n = lit ''//'' \<or> n = [])"
  then have "is_special n" unfolding is_special_iff by blast
  with a show "parse_members bs pos = parse_members bs pos'"
    by (simp add: parse_members_skips_special)
next
  assume a: "read_member bs pos = Record n d pos'
        \<and> (startswith n (lit ''__.SYMDEF'') \<or> n = lit ''/'' \<or> n = lit ''//'' \<or> n = [])"
  then have "read_member bs pos = Record n d pos'" by blast
  then show "\<exists>sf sz data.
                decode_ascii (take 10 (drop 48 (f_read bs (align bs pos) 60))) = Inr sf
                \<and> py_int (strip sf) = Inr sz
                \<and> f_read_size bs (align bs pos + 60) sz = Inr data
                \<and> pos' = align bs pos + 60 + length data"
    by (rule read_member_consumes)
qed

text \<open>
  On the archive with a symbol table of four bytes before \<^verbatim>\<open>a.o\<close>: only \<^verbatim>\<open>a.o\<close> is
  yielded, and the loop goes on at 72, after the header at 8 and the four bytes.
\<close>

theorem special_members_filtered_witness:
  "parse_ar [lit ''in.a'' \<mapsto> symdef_then_member] (lit ''in.a'') = Inr [(lit ''a.o'', [1])]
   \<and> read_member symdef_then_member 8 = Record (lit ''__.SYMDEF'') [0, 0, 0, 0] 72
   \<and> parse_members symdef_then_member 8 = parse_members symdef_then_member 72
   \<and> (\<exists>data. f_read_size symdef_then_member 68 4 = Inr data \<and> length data = 4)
   \<and> lit ''a.o'' \<noteq> []"
proof -
  have p: "parse_ar [lit ''in.a'' \<mapsto> symdef_then_member] (lit ''in.a'') = Inr [(lit ''a.o'', [1])]"
    by (simp add: parse_ar_def parse_symdef_then_member)
  have sw: "startswith (lit ''__.SYMDEF'') (lit ''__.SYMDEF'')" by (simp add: startswith_def)
  note inst = special_members_filtered [of "[lit ''in.a'' \<mapsto> symdef_then_member]" "lit ''in.a''"
      "[(lit ''a.o'', [1])]" symdef_then_member 8 "lit ''__.SYMDEF''" "[0, 0, 0, 0]" 72]
  from conjunct1 [OF inst] p have ne: "lit ''a.o'' \<noteq> []" by simp
  from conjunct2 [OF inst] symdef_at_8 sw
  have eq: "parse_members symdef_then_member 8 = parse_members symdef_then_member 72"
    and "\<exists>sf sz data.
           decode_ascii (take 10 (drop 48 (f_read symdef_then_member (align symdef_then_member 8) 60)))
             = Inr sf
           \<and> py_int (strip sf) = Inr sz
           \<and> f_read_size symdef_then_member (align symdef_then_member 8 + 60) sz = Inr data
           \<and> 72 = align symdef_then_member 8 + 60 + length data"
    by blast+
  then obtain sf sz data where
      sf: "decode_ascii (take 10 (drop 48 (f_read symdef_then_member (align symdef_then_member 8) 60)))
             = Inr sf"
      and sz: "py_int (strip sf) = Inr sz"
      and data: "f_read_size symdef_then_member (align symdef_then_member 8 + 60) sz = Inr data"
      and pos: "72 = align symdef_then_member 8 + 60 + length data"
    by blast
  have al: "align symdef_then_member 8 = 8" by (simp add: align_def)
  have "decode_ascii (take 10 (drop 48 (f_read symdef_then_member (align symdef_then_member 8) 60)))
      = Inr (lit ''4'' @ replicate 9 32)"
    by (simp add: symdef_then_member_def reader_defs)
  with sf have "sf = lit ''4'' @ replicate 9 32" by simp
  moreover have "py_int (strip (lit ''4'' @ replicate 9 32)) = Inr 4" by (simp add: reader_defs)
  ultimately have "sz = 4" using sz by simp
  with data pos al have "f_read_size symdef_then_member 68 4 = Inr data \<and> length data = 4"
    by simp
  then have "\<exists>data. f_read_size symdef_then_member 68 4 = Inr data \<and> length data = 4" by blast
  with p symdef_at_8 eq ne show ?thesis by blast
qed

text \<open>
  C4. The claim has undecodable bytes of a member's name replaced and never an
  error raised, in the 16-byte name field as in the extended name. Line 37 does
  so for the extended name (\<^verbatim>\<open>errors="replace"\<close>); line 30 decodes the name field
  strictly. On a header whose name field starts with the byte 0xff the reader
  raises UnicodeDecodeError and the run ends with status 1, nothing written.
\<close>

theorem short_name_raises:
  "read_member bad_name_field 8 = Raised UnicodeDecodeError
   \<and> parse_bytes bad_name_field = Inl UnicodeDecodeError
   \<and> main env_tools_fail [lit ''dedup-archive.py'', lit ''in.a'', lit ''out.a'']
        (world_with bad_name_field) = (Some UnicodeDecodeError, world_with bad_name_field)
   \<and> exit_status (Some UnicodeDecodeError) = 1"
proof -
  have r: "read_member bad_name_field 8 = Raised UnicodeDecodeError"
    by (simp add: bad_name_field_def reader_defs)
  have m: "f_read bad_name_field 0 8 = ar_magic"
    by (simp add: bad_name_field_def f_read_def ar_magic_def)
  have l: "length ar_magic = 8" by (simp add: ar_magic_def)
  have "parse_members bad_name_field 8 = Inl UnicodeDecodeError"
    by (subst parse_members.simps) (simp add: r)
  then have p: "parse_bytes bad_name_field = Inl UnicodeDecodeError"
    by (simp add: parse_bytes_def m l)
  then have "parse_ar (files (world_with bad_name_field)) (lit ''in.a'') = Inl UnicodeDecodeError"
    by (simp add: parse_ar_def world_with_def)
  then have "main env_tools_fail [lit ''dedup-archive.py'', lit ''in.a'', lit ''out.a'']
        (world_with bad_name_field) = (Some UnicodeDecodeError, world_with bad_name_field)"
    by (simp add: main_def)
  with r p show ?thesis by (simp add: exit_status_def)
qed

text \<open>
  The other path, for comparison: once the header fields are decoded and the
  payload is read, an extended name never raises, whatever its bytes, and each
  byte above 0x7f becomes U+FFFD.
\<close>

lemma extended_name_never_raises:
  assumes "length (f_read bs (align bs pos) 60) = 60"
    and "decode_ascii (take 16 (f_read bs (align bs pos) 60)) = Inr nf"
    and "decode_ascii (take 10 (drop 48 (f_read bs (align bs pos) 60))) = Inr sf"
    and "py_int (strip sf) = Inr sz"
    and "f_read_size bs (align bs pos + 60) sz = Inr data"
    and "startswith (strip nf) (lit ''#1/'')"
    and "py_int (drop 3 (strip nf)) = Inr name_len"
  shows "read_member bs pos =
           Record (map (\<lambda>b. if b < 128 then unat b else 65533) (rstrip_nul (slice_to data name_len)))
                  (slice_from data name_len) (align bs pos + 60 + length data)"
  using assms
  by (simp add: read_member_def Let_def resolve_name_def decode_ascii_replace_def)

lemma extended_bad_name_at_8:
  "read_member extended_bad_name 8 = Record [97, 65533, 111] [7, 7] 74"
  by (simp add: extended_bad_name_def reader_defs)

section \<open>The run\<close>

lemma main_passthrough:
  "parse_ar (files w) input_path = Inr members \<Longrightarrow> actual_dups (map fst members) = {} \<Longrightarrow>
     main e [prog, input_path, output_path] w = passthrough e input_path output_path w"
  by (simp add: main_def)

lemma main_rebuild:
  "parse_ar (files w) input_path = Inr members \<Longrightarrow> actual_dups (map fst members) \<noteq> {} \<Longrightarrow>
     main e [prog, input_path, output_path] w = rebuild e output_path members w"
  by (simp add: main_def)

lemma passthrough_result:
  "fst (passthrough e input_path output_path w) = None"
  "files (snd (passthrough e input_path output_path w)) = snd (cp e input_path output_path (files w))"
  "spawned (snd (passthrough e input_path output_path w)) = spawned w @ [Cp input_path output_path]"
  by (simp_all add: passthrough_def Let_def split: prod.splits)

lemma parse_world_table:
  "parse_ar (files (world_with table_then_member)) (lit ''in.a'') = Inr [(lit ''a.o'', [1])]"
  by (simp add: world_with_def parse_ar_def parse_table_then_member)

lemma no_dups_a: "actual_dups (map fst [(lit ''a.o'', [1::byte])]) = {}"
  by (auto simp: actual_dups_def)

lemma in_neq_out: "lit ''in.a'' \<noteq> lit ''out.a''"
  by (simp add: lit_def)

lemma two_copies_at_8: "read_member two_copies 8 = Record (lit ''ggml.c.o'') [1] 69"
  by (simp add: two_copies_def reader_defs)

lemma two_copies_at_69: "read_member two_copies 69 = Record (lit ''ggml.c.o'') [2] 131"
  by (simp add: two_copies_def reader_defs)

lemma two_copies_at_131: "read_member two_copies 131 = EndOfArchive"
  by (simp add: two_copies_def reader_defs)

lemma ggml_not_special: "\<not> is_special (lit ''ggml.c.o'')"
  by (simp add: is_special_def lit_def startswith_def)

lemma parse_two_copies:
  "parse_bytes two_copies = Inr [(lit ''ggml.c.o'', [1]), (lit ''ggml.c.o'', [2])]"
proof -
  have m: "f_read two_copies 0 8 = ar_magic"
    by (simp add: two_copies_def f_read_def ar_magic_def)
  have l: "length ar_magic = 8" by (simp add: ar_magic_def)
  have p131: "parse_members two_copies 131 = Inr []"
    by (subst parse_members.simps) (simp add: two_copies_at_131)
  have p69: "parse_members two_copies 69 = Inr [(lit ''ggml.c.o'', [2])]"
    by (subst parse_members.simps) (simp add: two_copies_at_69 ggml_not_special p131)
  have p8: "parse_members two_copies 8 = Inr [(lit ''ggml.c.o'', [1]), (lit ''ggml.c.o'', [2])]"
    by (subst parse_members.simps) (simp add: two_copies_at_8 ggml_not_special p69)
  show ?thesis by (simp add: parse_bytes_def m l p8)
qed

lemma ggml_candidate: "lit ''ggml.c.o'' \<in> duplicate_candidates"
  by (simp add: duplicate_candidates_def)

lemma dups_two_copies: "actual_dups [lit ''ggml.c.o'', lit ''ggml.c.o''] \<noteq> {}"
  unfolding actual_dups_def using ggml_candidate by auto

lemma skip_two_copies: "skip_indices_of [lit ''ggml.c.o'', lit ''ggml.c.o''] = {0}"
  by (simp add: skip_indices_of_def mark_def actual_dups_def ggml_candidate)

lemma str_nat_1: "str_nat (Suc 0) = [49]"
  by (subst str_nat.simps) simp

lemma format_05d_1: "format_05d (Suc 0) = [48, 48, 48, 48, 49]"
  by (simp add: format_05d_def str_nat_1 replicate_numeral)

lemma staged_path_1:
  "path_join (lit ''/tmp/d'') (format_05d (Suc 0) @ lit ''_'' @ lit ''ggml.c.o'')
     = lit ''/tmp/d/00001_ggml.c.o''"
  by (simp add: format_05d_1 path_join_def startswith_def lit_def)

lemma stage_two_copies:
  "tmpdir e = lit ''/tmp/d'' \<Longrightarrow> create_error e = (\<lambda>p. None) \<Longrightarrow>
   stage e {0} (enumerate 0 [(lit ''ggml.c.o'', [1]), (lit ''ggml.c.o'', [2])]) fs []
     = (None, [lit ''/tmp/d/00001_ggml.c.o''], fs(lit ''/tmp/d/00001_ggml.c.o'' \<mapsto> [2]))"
proof -
  assume e: "tmpdir e = lit ''/tmp/d''" "create_error e = (\<lambda>p. None)"
  have n: "0 \<notin> set (lit ''/tmp/d/00001_ggml.c.o'')"
    "47 \<notin> set (format_05d (Suc 0) @ lit ''_'' @ lit ''ggml.c.o'')"
    by (simp_all add: format_05d_1 lit_def)
  show ?thesis using e n by (simp add: Let_def staged_path_1)
qed

lemma remove_if_exists:
  "(if fs p \<noteq> None then fs(p := None) else fs) = fs(p := None)"
  by (auto simp: fun_eq_iff)

lemma rebuild_ar_failed:
  assumes "stage e (skip_indices_of (map fst members)) (enumerate 0 members) (files w) []
             = (None, extracted, fs1)"
    and "ar e output_path extracted (fs1(output_path := None)) = (rc, fs3)"
    and "rc \<noteq> 0"
  shows "fst (rebuild e output_path members w) = Some (CalledProcessError rc)"
    and "files (snd (rebuild e output_path members w)) = cleanup (tmpdir e) fs3"
  using assms unfolding rebuild_def remove_if_exists by (simp_all add: Let_def)

lemma cleanup_absent: "fs p = None \<Longrightarrow> cleanup d fs p = None"
  by (simp add: cleanup_def)

lemma parse_world_two_copies:
  "parse_ar (files (world_with_output two_copies old)) (lit ''in.a'')
     = Inr [(lit ''ggml.c.o'', [1]), (lit ''ggml.c.o'', [2])]"
  by (simp add: world_with_output_def parse_ar_def parse_two_copies in_neq_out)

lemma names_two_copies:
  "map fst [(lit ''ggml.c.o'', [1::byte]), (lit ''ggml.c.o'', [2])] = [lit ''ggml.c.o'', lit ''ggml.c.o'']"
  by simp






section \<open>Claims on the run\<close>

text \<open>
  C9. An invocation with any number of positional arguments other than two prints
  the usage line on standard output and exits with status 1; the file system is
  as before and no command was started.
\<close>

theorem wrong_argument_count:
  "length args \<noteq> 2 \<Longrightarrow>
     main e (prog # args) w = (Some (SystemExit 1), w\<lparr>stdout := stdout w @ [usage prog]\<rparr>)
     \<and> exit_status (fst (main e (prog # args) w)) = 1
     \<and> files (snd (main e (prog # args) w)) = files w
     \<and> spawned (snd (main e (prog # args) w)) = spawned w"
  by (simp add: main_def exit_status_def py_print_def)

text \<open>
  With one positional argument.
\<close>

theorem wrong_argument_count_witness:
  "exit_status (fst (main env_tools_fail [lit ''dedup-archive.py'', lit ''in.a''] (world_with table_then_member))) = 1
   \<and> stdout (snd (main env_tools_fail [lit ''dedup-archive.py'', lit ''in.a''] (world_with table_then_member)))
       = [lit ''Usage: dedup-archive.py <input.a> <output.a>'']
   \<and> spawned (snd (main env_tools_fail [lit ''dedup-archive.py'', lit ''in.a''] (world_with table_then_member))) = []"
proof -
  have h: "length [lit ''in.a''] \<noteq> 2" by simp
  note inst = wrong_argument_count [OF h, of env_tools_fail "lit ''dedup-archive.py''"
      "world_with table_then_member"]
  from inst have m: "main env_tools_fail [lit ''dedup-archive.py'', lit ''in.a''] (world_with table_then_member)
      = (Some (SystemExit 1), (world_with table_then_member)\<lparr>stdout :=
           stdout (world_with table_then_member) @ [usage (lit ''dedup-archive.py'')]\<rparr>)"
    by blast
  show ?thesis unfolding m by (simp add: exit_status_def world_with_def usage_def lit_def)
qed

text \<open>
  C10. When the archive parses and no candidate name is duplicated, the run starts
  \<^verbatim>\<open>cp\<close>, takes the file system as \<^verbatim>\<open>cp\<close> leaves it and exits with status 0,
  for every exit status and every effect of \<^verbatim>\<open>cp\<close>: the status is not looked at.
\<close>

theorem passthrough_ignores_copy_status:
  assumes "parse_ar (files w) input_path = Inr members"
    and "actual_dups (map fst members) = {}"
  shows "exit_status (fst (main e [prog, input_path, output_path] w)) = 0
     \<and> files (snd (main e [prog, input_path, output_path] w))
         = snd (cp e input_path output_path (files w))
     \<and> spawned (snd (main e [prog, input_path, output_path] w))
         = spawned w @ [Cp input_path output_path]"
  by (simp add: main_passthrough [OF assms] passthrough_result exit_status_def)

text \<open>
  With a \<^verbatim>\<open>cp\<close> that exits with status 1 and writes nothing: the run still exits
  with status 0, and there is no output file.
\<close>

theorem passthrough_ignores_copy_status_witness:
  "fst (cp env_tools_fail (lit ''in.a'') (lit ''out.a'') (files (world_with table_then_member))) = 1
   \<and> exit_status (fst (main env_tools_fail [lit ''dedup-archive.py'', lit ''in.a'', lit ''out.a'']
          (world_with table_then_member))) = 0
   \<and> files (snd (main env_tools_fail [lit ''dedup-archive.py'', lit ''in.a'', lit ''out.a'']
          (world_with table_then_member))) (lit ''out.a'') = None"
proof -
  note inst = passthrough_ignores_copy_status [OF parse_world_table no_dups_a,
      of env_tools_fail "lit ''dedup-archive.py''" "lit ''out.a''"]
  have "files (world_with table_then_member) (lit ''out.a'') = None"
    using in_neq_out by (simp add: world_with_def)
  with inst show ?thesis by (simp add: env_tools_fail_def)
qed

text \<open>
  C6. When the archive parses and no candidate name is duplicated, and the copy
  utility does on this call what it does on regular files, then the bytes at the
  output path are the bytes at the input path, nothing else in the file system has
  changed (nothing was staged) and the only command started is the copy (no
  rebuild).
\<close>

theorem passthrough_copies_input:
  assumes "parse_ar (files w) input_path = Inr members"
    and "actual_dups (map fst members) = {}"
    and "cp e input_path output_path (files w) = posix_cp input_path output_path (files w)"
  shows "files (snd (main e [prog, input_path, output_path] w)) output_path = files w input_path
     \<and> files (snd (main e [prog, input_path, output_path] w))
         = (files w)(output_path := files w input_path)
     \<and> spawned (snd (main e [prog, input_path, output_path] w))
         = spawned w @ [Cp input_path output_path]"
proof -
  from assms(1) obtain content where c: "files w input_path = Some content"
    by (auto simp: parse_ar_def split: option.splits)
  have "snd (posix_cp input_path output_path (files w)) = (files w)(output_path := files w input_path)"
    using c by (auto simp: posix_cp_def)
  then show ?thesis
    by (simp add: main_passthrough [OF assms(1,2)] passthrough_result assms(3))
qed

text \<open>
  On the archive with \<^verbatim>\<open>a.o\<close> alone: \<^verbatim>\<open>out.a\<close> holds the bytes of \<^verbatim>\<open>in.a\<close>.
\<close>

theorem passthrough_copies_input_witness:
  "files (snd (main env_cp_works [lit ''dedup-archive.py'', lit ''in.a'', lit ''out.a'']
          (world_with table_then_member))) (lit ''out.a'') = Some table_then_member
   \<and> spawned (snd (main env_cp_works [lit ''dedup-archive.py'', lit ''in.a'', lit ''out.a'']
          (world_with table_then_member))) = [Cp (lit ''in.a'') (lit ''out.a'')]"
proof -
  have c: "cp env_cp_works (lit ''in.a'') (lit ''out.a'') (files (world_with table_then_member))
      = posix_cp (lit ''in.a'') (lit ''out.a'') (files (world_with table_then_member))"
    by (simp add: env_cp_works_def)
  from passthrough_copies_input [OF parse_world_table no_dups_a c, of "lit ''dedup-archive.py''"]
  show ?thesis by (simp add: world_with_def)
qed




text \<open>
  C3, as stated, fails: lines 104-105 remove an existing output file before
  \<^verbatim>\<open>ar\<close> is started. When \<^verbatim>\<open>ar\<close> then fails and writes nothing, the run exits
  with status 1 and the output file that was there is gone.
\<close>

theorem rebuild_failure_loses_output:
  "files (world_with_output two_copies [9]) (lit ''out.a'') = Some [9]
   \<and> exit_status (fst (main env_tools_fail [lit ''dedup-archive.py'', lit ''in.a'', lit ''out.a'']
          (world_with_output two_copies [9]))) = 1
   \<and> files (snd (main env_tools_fail [lit ''dedup-archive.py'', lit ''in.a'', lit ''out.a'']
          (world_with_output two_copies [9]))) (lit ''out.a'') = None"
proof -
  let ?w = "world_with_output two_copies [9]"
  let ?ms = "[(lit ''ggml.c.o'', [1::byte]), (lit ''ggml.c.o'', [2])]"
  let ?p = "lit ''/tmp/d/00001_ggml.c.o''"
  have m: "main env_tools_fail [lit ''dedup-archive.py'', lit ''in.a'', lit ''out.a''] ?w
      = rebuild env_tools_fail (lit ''out.a'') ?ms ?w"
    by (rule main_rebuild [OF parse_world_two_copies]) (simp add: dups_two_copies)
  have st: "stage env_tools_fail (skip_indices_of (map fst ?ms)) (enumerate 0 ?ms) (files ?w) []
      = (None, [?p], (files ?w)(?p \<mapsto> [2]))"
    unfolding names_two_copies skip_two_copies
    by (rule stage_two_copies) (simp_all add: env_tools_fail_def)
  have a: "ar env_tools_fail (lit ''out.a'') [?p] (((files ?w)(?p \<mapsto> [2]))(lit ''out.a'' := None))
      = (1, ((files ?w)(?p \<mapsto> [2]))(lit ''out.a'' := None))"
    by (simp add: env_tools_fail_def)
  have one: "(1::int) \<noteq> 0" by simp
  note r = rebuild_ar_failed [OF st a one]
  have "files ?w (lit ''out.a'') = Some [9]" by (simp add: world_with_output_def)
  moreover have "exit_status (fst (main env_tools_fail [lit ''dedup-archive.py'', lit ''in.a'', lit ''out.a''] ?w)) = 1"
    unfolding m r(1) by (simp add: exit_status_def)
  moreover have "files (snd (main env_tools_fail [lit ''dedup-archive.py'', lit ''in.a'', lit ''out.a''] ?w))
      (lit ''out.a'') = None"
    unfolding m r(2) by (rule cleanup_absent) simp
  ultimately show ?thesis by blast
qed

text \<open>
  C3, amended: if the external archiver fails, the run ends with the uncaught
  CalledProcessError, hence a non-zero status, and the staged files are removed.
  The archiver is started on the file system from which the destination has been
  removed, and the file system after the run is what the archiver left, less the
  temporary directory: a destination the failed archiver did not write is absent,
  whether or not one existed before.
\<close>

theorem rebuild_failure_after_removal:
  assumes "parse_ar (files w) input_path = Inr members"
    and "actual_dups (map fst members) \<noteq> {}"
    and "stage e (skip_indices_of (map fst members)) (enumerate 0 members) (files w) []
           = (None, extracted, fs1)"
    and "ar e output_path extracted (fs1(output_path := None)) = (rc, fs3)"
    and "rc \<noteq> 0"
  shows "fst (main e [prog, input_path, output_path] w) = Some (CalledProcessError rc)
     \<and> exit_status (fst (main e [prog, input_path, output_path] w)) = 1
     \<and> files (snd (main e [prog, input_path, output_path] w)) = cleanup (tmpdir e) fs3
     \<and> (fs3 output_path = None
          \<longrightarrow> files (snd (main e [prog, input_path, output_path] w)) output_path = None)"
  by (simp add: main_rebuild [OF assms(1,2)] rebuild_ar_failed [OF assms(3,4,5)]
      exit_status_def cleanup_absent)

text \<open>
  With an older \<^verbatim>\<open>out.a\<close> and a failing \<^verbatim>\<open>ar\<close>.
\<close>

theorem rebuild_failure_after_removal_witness:
  "fst (main env_tools_fail [lit ''dedup-archive.py'', lit ''in.a'', lit ''out.a'']
          (world_with_output two_copies [9])) = Some (CalledProcessError 1)
   \<and> files (snd (main env_tools_fail [lit ''dedup-archive.py'', lit ''in.a'', lit ''out.a'']
          (world_with_output two_copies [9]))) (lit ''out.a'') = None
   \<and> files (snd (main env_tools_fail [lit ''dedup-archive.py'', lit ''in.a'', lit ''out.a'']
          (world_with_output two_copies [9]))) (lit ''/tmp/d/00001_ggml.c.o'') = None"
proof -
  let ?w = "world_with_output two_copies [9]"
  let ?ms = "[(lit ''ggml.c.o'', [1::byte]), (lit ''ggml.c.o'', [2])]"
  let ?p = "lit ''/tmp/d/00001_ggml.c.o''"
  have d: "actual_dups (map fst ?ms) \<noteq> {}" by (simp add: dups_two_copies)
  have st: "stage env_tools_fail (skip_indices_of (map fst ?ms)) (enumerate 0 ?ms) (files ?w) []
      = (None, [?p], (files ?w)(?p \<mapsto> [2]))"
    unfolding names_two_copies skip_two_copies
    by (rule stage_two_copies) (simp_all add: env_tools_fail_def)
  have a: "ar env_tools_fail (lit ''out.a'') [?p] (((files ?w)(?p \<mapsto> [2]))(lit ''out.a'' := None))
      = (1, ((files ?w)(?p \<mapsto> [2]))(lit ''out.a'' := None))"
    by (simp add: env_tools_fail_def)
  have one: "(1::int) \<noteq> 0" by simp
  note inst = rebuild_failure_after_removal [OF parse_world_two_copies d st a one,
      of "lit ''dedup-archive.py''"]
  have t: "tmpdir env_tools_fail = lit ''/tmp/d''" by (simp add: env_tools_fail_def)
  have inside: "startswith ?p (path_join (lit ''/tmp/d'') [])"
    by (simp add: path_join_def startswith_def lit_def)
  have gone: "(((files ?w)(?p \<mapsto> [2]))(lit ''out.a'' := None)) (lit ''out.a'') = None" by simp
  note raised = conjunct1 [OF inst]
  note left = conjunct1 [OF conjunct2 [OF conjunct2 [OF inst]]]
  note absent = conjunct2 [OF conjunct2 [OF conjunct2 [OF inst]], THEN mp, OF gone]
  have "files (snd (main env_tools_fail [lit ''dedup-archive.py'', lit ''in.a'', lit ''out.a''] ?w)) ?p = None"
    unfolding left t using inside by (simp add: cleanup_def)
  with raised absent show ?thesis by blast
qed

text \<open>
  C7. When a rebuild is reached and the staging succeeds, the archiver is started
  once, with the list \<open>extracted\<close>: its length is the number of members read less
  the size of the drop set, and it lists the staged files of the members that are
  not dropped by increasing index, that is in the order of the input.
\<close>

theorem writer_gets_survivors_in_order:
  assumes "parse_ar (files w) input_path = Inr members"
    and "actual_dups (map fst members) \<noteq> {}"
    and "stage e (skip_indices_of (map fst members)) (enumerate 0 members) (files w) []
           = (None, extracted, fs1)"
  shows "spawned (snd (main e [prog, input_path, output_path] w))
           = spawned w @ [Ar output_path extracted]
     \<and> length extracted = length members - card (skip_indices_of (map fst members))
     \<and> extracted = map (\<lambda>i. path_join (tmpdir e) (format_05d i @ lit ''_'' @ fst (members ! i)))
                      (filter (\<lambda>i. i \<notin> skip_indices_of (map fst members)) [0..<length members])
     \<and> sorted_wrt (<) (filter (\<lambda>i. i \<notin> skip_indices_of (map fst members)) [0..<length members])"
proof -
  let ?skip = "skip_indices_of (map fst members)"
  let ?idx = "filter (\<lambda>i. i \<notin> ?skip) [0..<length members]"
  have sp: "spawned (snd (main e [prog, input_path, output_path] w))
           = spawned w @ [Ar output_path extracted]"
    by (simp add: main_rebuild [OF assms(1,2)] rebuild_staged [OF assms(3)])
  have ex: "extracted = map (\<lambda>i. path_join (tmpdir e) (format_05d i @ lit ''_'' @ fst (members ! i))) ?idx"
    using stage_extracted [OF assms(3)]
      enumerate_filter_indices [of "\<lambda>i m. path_join (tmpdir e) (format_05d i @ lit ''_'' @ fst m)" ?skip members]
    by simp
  have "length ?idx = length members - card ?skip"
    using length_filter_not_skipped [of "map fst members"] by simp
  with ex have len: "length extracted = length members - card ?skip" by simp
  have so: "sorted_wrt (<) ?idx" by (rule sorted_wrt_filter) simp
  from sp len ex so show ?thesis by blast
qed

text \<open>
  On the archive with two copies: one staged file, of the member of index 1.
\<close>

theorem writer_gets_survivors_in_order_witness:
  "spawned (snd (main env_tools_fail [lit ''dedup-archive.py'', lit ''in.a'', lit ''out.a'']
          (world_with_output two_copies [9])))
     = [Ar (lit ''out.a'') [lit ''/tmp/d/00001_ggml.c.o'']]
   \<and> length [lit ''/tmp/d/00001_ggml.c.o''] = 2 - card (skip_indices_of [lit ''ggml.c.o'', lit ''ggml.c.o''])"
proof -
  let ?w = "world_with_output two_copies [9]"
  let ?ms = "[(lit ''ggml.c.o'', [1::byte]), (lit ''ggml.c.o'', [2])]"
  let ?p = "lit ''/tmp/d/00001_ggml.c.o''"
  have d: "actual_dups (map fst ?ms) \<noteq> {}" by (simp add: dups_two_copies)
  have st: "stage env_tools_fail (skip_indices_of (map fst ?ms)) (enumerate 0 ?ms) (files ?w) []
      = (None, [?p], (files ?w)(?p \<mapsto> [2]))"
    unfolding names_two_copies skip_two_copies
    by (rule stage_two_copies) (simp_all add: env_tools_fail_def)
  note inst = writer_gets_survivors_in_order [OF parse_world_two_copies d st,
      of "lit ''dedup-archive.py''" "lit ''out.a''"]
  have e: "spawned ?w = []" by (simp add: world_with_output_def)
  from conjunct1 [OF inst] e
  have "spawned (snd (main env_tools_fail [lit ''dedup-archive.py'', lit ''in.a'', lit ''out.a''] ?w))
     = [Ar (lit ''out.a'') [?p]]" by simp
  moreover from conjunct1 [OF conjunct2 [OF inst]]
  have "length [?p] = 2 - card (skip_indices_of [lit ''ggml.c.o'', lit ''ggml.c.o''])"
    by simp
  ultimately show ?thesis by blast
qed

section \<open>A second run on the output\<close>







lemma skip_three_copies:
  "skip_indices_of [lit ''ggml.c.o'', lit ''ggml.c.o'', lit ''ggml.c.o''] = {0}"
  by (simp add: skip_indices_of_def mark_def actual_dups_def ggml_candidate)


























text \<open>
  The staged names matter here: on the names alone the policy is not idempotent,
  since of three copies two survive and a further pass over these two names would
  drop the first of them again.
\<close>

lemma names_kept_not_idempotent:
  "skip_indices_of (surviving (skip_indices_of [lit ''ggml.c.o'', lit ''ggml.c.o'', lit ''ggml.c.o''])
      [lit ''ggml.c.o'', lit ''ggml.c.o'', lit ''ggml.c.o'']) = {0}"
  by (simp add: skip_three_copies surviving_def skip_two_copies)

end
